theory Spec2Isabelle
  imports Main
begin

unbundle bit_operations_syntax

section \<open>Classical Trivium (cl_trivium.py)\<close>

subsection \<open>Python lists, errors and loops\<close>

text \<open>
  The only exception the classical code can raise is the \<open>IndexError\<close> of a list
  subscript that is out of range. Bits are Python integers (a \<open>bool\<close> read from a
  \<open>BitArray\<close> is an \<open>int\<close> with value 0 or 1), combined with \<open>^\<close> and \<open>&\<close>.
\<close>

datatype error = IndexError

text \<open>\<open>xs[a:b]\<close> with non-negative constant bounds; a slice never raises.\<close>

definition slice :: "'a list \<Rightarrow> nat \<Rightarrow> nat \<Rightarrow> 'a list" where
  "slice xs a b = drop a (take b xs)"

text \<open>\<open>xs[i]\<close> as an expression and \<open>xs[i] = v\<close> as a statement, for \<open>i \<ge> 0\<close>.\<close>

definition getitem :: "'a list \<Rightarrow> nat \<Rightarrow> error + 'a" where
  "getitem xs i = (if i < length xs then Inr (xs ! i) else Inl IndexError)"

definition setitem :: "'a list \<Rightarrow> nat \<Rightarrow> 'a \<Rightarrow> error + 'a list" where
  "setitem xs i v = (if i < length xs then Inr (xs[i := v]) else Inl IndexError)"

text \<open>\<open>for i in <indices>: body\<close>, where the body may raise: the first error ends the loop.\<close>

fun for_each :: "nat list \<Rightarrow> (nat \<Rightarrow> 's \<Rightarrow> error + 's) \<Rightarrow> 's \<Rightarrow> error + 's" where
  "for_each [] body s = Inr s"
| "for_each (i # is) body s =
     (case body i s of Inl e \<Rightarrow> Inl e | Inr s' \<Rightarrow> for_each is body s')"

text \<open>\<open>range(N)\<close> for a Python integer \<open>N\<close>: empty when \<open>N \<le> 0\<close>.\<close>

definition range_py :: "int \<Rightarrow> nat list" where
  "range_py N = [0..<nat N]"

subsection \<open>The two clocks\<close>

text \<open>
  Body of the warm-up loop of \<open>key_iv_setup\<close> (lines 39 to 43). The thirteen subscripts
  read indices up to 287 and nothing is written before the last of them, so the body
  raises \<open>IndexError\<close> exactly when the list has fewer than 288 elements.
\<close>

definition warmup_clock :: "int list \<Rightarrow> error + int list" where
  "warmup_clock state =
     (if length state < 288 then Inl IndexError
      else
        let t1 = ((state ! 65 XOR (state ! 90 AND state ! 91)) XOR state ! 92) XOR state ! 170;
            t2 = ((state ! 161 XOR (state ! 174 AND state ! 175)) XOR state ! 176) XOR state ! 263;
            t3 = ((state ! 242 XOR (state ! 285 AND state ! 286)) XOR state ! 287) XOR state ! 68
        in Inr ([t3] @ slice state 0 92 @ [t1] @ slice state 93 176 @ [t2] @ slice state 177 287))"

text \<open>
  Body of the loop of \<open>key_stream_generation\<close> (lines 60 to 71), as a function from the
  state to the output bit \<open>z\<close> and the next state. Index 287 is read before
  \<open>keystream[i] = z\<close> is executed, so a short list raises before anything is written.
\<close>

definition keystream_clock :: "int list \<Rightarrow> error + (int \<times> int list)" where
  "keystream_clock state =
     (if length state < 288 then Inl IndexError
      else
        let t1 = state ! 65 XOR state ! 92;
            t2 = state ! 161 XOR state ! 176;
            t3 = state ! 242 XOR state ! 287;
            z = (t1 XOR t2) XOR t3;
            t1' = (t1 XOR (state ! 90 AND state ! 91)) XOR state ! 170;
            t2' = (t2 XOR (state ! 174 AND state ! 175)) XOR state ! 263;
            t3' = (t3 XOR (state ! 285 AND state ! 286)) XOR state ! 68
        in Inr (z, [t3'] @ slice state 0 92 @ [t1'] @ slice state 93 176 @ [t2'] @ slice state 177 287))"

subsection \<open>Key and IV setup\<close>

definition load_key :: "int list \<Rightarrow> nat \<Rightarrow> int list \<Rightarrow> error + int list" where
  "load_key key i state =
     (case getitem key i of Inl e \<Rightarrow> Inl e | Inr b \<Rightarrow> setitem state i b)"

definition load_iv :: "int list \<Rightarrow> nat \<Rightarrow> int list \<Rightarrow> error + int list" where
  "load_iv iv i state =
     (case getitem iv i of Inl e \<Rightarrow> Inl e | Inr b \<Rightarrow> setitem state (93 + i) b)"

definition set_ones :: "nat \<Rightarrow> int list \<Rightarrow> error + int list" where
  "set_ones i state = setitem state (285 + i) 1"

text \<open>The state built by lines 27 to 36, before the warm-up loop.\<close>

definition initial_state :: "int list \<Rightarrow> int list \<Rightarrow> error + int list" where
  "initial_state key iv =
     (case for_each [0..<80] (load_key key) (replicate 288 0) of
        Inl e \<Rightarrow> Inl e
      | Inr s1 \<Rightarrow>
          (case for_each [0..<80] (load_iv iv) s1 of
             Inl e \<Rightarrow> Inl e
           | Inr s2 \<Rightarrow> for_each [0..<3] set_ones s2))"

definition key_iv_setup :: "int list \<Rightarrow> int list \<Rightarrow> error + int list" where
  "key_iv_setup key iv =
     (case initial_state key iv of
        Inl e \<Rightarrow> Inl e
      | Inr s3 \<Rightarrow> for_each [0..<4 * 288] (\<lambda>i. warmup_clock) s3)"

subsection \<open>Keystream generation\<close>

text \<open>
  The loop state is the pair of the two local variables \<open>keystream\<close> and \<open>state\<close>;
  the function returns \<open>keystream\<close> only.
\<close>

definition generation_body :: "nat \<Rightarrow> int list \<times> int list \<Rightarrow> error + (int list \<times> int list)" where
  "generation_body i = (\<lambda>(keystream, state).
     case keystream_clock state of
       Inl e \<Rightarrow> Inl e
     | Inr (z, state') \<Rightarrow>
         (case setitem keystream i z of
            Inl e \<Rightarrow> Inl e
          | Inr keystream' \<Rightarrow> Inr (keystream', state')))"

definition generation_loop :: "int list \<Rightarrow> int \<Rightarrow> error + (int list \<times> int list)" where
  "generation_loop state N = for_each (range_py N) generation_body (replicate (nat N) 0, state)"

definition key_stream_generation :: "int list \<Rightarrow> int \<Rightarrow> error + int list" where
  "key_stream_generation state N =
     (case generation_loop state N of Inl e \<Rightarrow> Inl e | Inr (keystream, state') \<Rightarrow> Inr keystream)"


subsection \<open>The script's key and IV\<close>

text \<open>
  Lines 78 and 79: \<open>BitArray("0x0123456789ABCDEF1234")\<close>, whose elements are the 80 bits
  of the hexadecimal digits, most significant bit first.
\<close>

definition main_key :: "int list" where
  "main_key =
    [0, 0, 0, 0, 0, 0, 0, 1, 0, 0, 1, 0, 0, 0, 1, 1, 0, 1, 0, 0,
     0, 1, 0, 1, 0, 1, 1, 0, 0, 1, 1, 1, 1, 0, 0, 0, 1, 0, 0, 1,
     1, 0, 1, 0, 1, 0, 1, 1, 1, 1, 0, 0, 1, 1, 0, 1, 1, 1, 1, 0,
     1, 1, 1, 1, 0, 0, 0, 1, 0, 0, 1, 0, 0, 0, 1, 1, 0, 1, 0, 0]"

definition main_iv :: "int list" where
  "main_iv = main_key"


section \<open>The specification's words\<close>

text \<open>
  The forward clock as the specification describes it: the three taps are read from the
  old state, and the new vector is \<open>t3\<close>, old cells 0..91, \<open>t1\<close>, old cells 93..175,
  \<open>t2\<close>, old cells 177..286.
\<close>

definition t1_spec :: "int list \<Rightarrow> int" where
  "t1_spec state = state ! 65 XOR (state ! 90 AND state ! 91) XOR state ! 92 XOR state ! 170"

definition t2_spec :: "int list \<Rightarrow> int" where
  "t2_spec state = state ! 161 XOR (state ! 174 AND state ! 175) XOR state ! 176 XOR state ! 263"

definition t3_spec :: "int list \<Rightarrow> int" where
  "t3_spec state = state ! 242 XOR (state ! 285 AND state ! 286) XOR state ! 287 XOR state ! 68"

text \<open>Old cells \<open>a..b\<close>, both ends included.\<close>

definition cells :: "'a list \<Rightarrow> nat \<Rightarrow> nat \<Rightarrow> 'a list" where
  "cells state a b = map (\<lambda>i. state ! i) [a..<Suc b]"

definition forward_clock_spec :: "int list \<Rightarrow> int list" where
  "forward_clock_spec state =
     [t3_spec state] @ cells state 0 91 @ [t1_spec state] @ cells state 93 175 @
     [t2_spec state] @ cells state 177 286"

definition output_bit_spec :: "int list \<Rightarrow> int" where
  "output_bit_spec state =
     state ! 65 XOR state ! 92 XOR state ! 161 XOR state ! 176 XOR state ! 242 XOR state ! 287"

text \<open>
  \<open>n\<close> keystream clocks in order, one output bit per clock, bit 0 first: bit \<open>j\<close> is the
  output bit of the state reached after \<open>j\<close> clocks.
\<close>

definition keystream_spec :: "int list \<Rightarrow> nat \<Rightarrow> int list" where
  "keystream_spec state n = map (\<lambda>j. output_bit_spec ((forward_clock_spec ^^ j) state)) [0..<n]"

text \<open>
  Two callers for the streaming law. \<open>two_requests\<close> sets the cipher up once and asks the
  same state for \<open>N1\<close> bits and then for \<open>N2\<close> bits, returning the second answer;
  \<open>fresh_last\<close> sets it up afresh, asks for \<open>N1 + N2\<close> bits and keeps the last \<open>N2\<close>.
\<close>

definition two_requests :: "int list \<Rightarrow> int list \<Rightarrow> int \<Rightarrow> int \<Rightarrow> error + int list" where
  "two_requests key iv N1 N2 =
     (case key_iv_setup key iv of
        Inl e \<Rightarrow> Inl e
      | Inr state \<Rightarrow>
          (case key_stream_generation state N1 of
             Inl e \<Rightarrow> Inl e
           | Inr first \<Rightarrow> key_stream_generation state N2))"

definition fresh_last :: "int list \<Rightarrow> int list \<Rightarrow> int \<Rightarrow> int \<Rightarrow> error + int list" where
  "fresh_last key iv N1 N2 =
     (case key_iv_setup key iv of
        Inl e \<Rightarrow> Inl e
      | Inr state \<Rightarrow>
          (case key_stream_generation state (N1 + N2) of
             Inl e \<Rightarrow> Inl e
           | Inr ks \<Rightarrow> Inr (drop (length ks - nat N2) ks)))"

text \<open>
  The 288 bits that \<open>key_iv_setup\<close> returns for the script's key and IV, written out (that
  they are is the lemma \<open>main_setup\<close> below).
\<close>

definition main_state :: "int list" where
  "main_state =
    [1, 1, 1, 1, 0, 0, 1, 0, 1, 1, 0, 0, 1, 0, 0, 0, 0, 0, 1, 1, 0, 0, 0, 0,
     0, 0, 0, 0, 0, 1, 1, 1, 1, 0, 0, 0, 1, 1, 1, 1, 0, 1, 1, 1, 1, 1, 0, 0,
     1, 1, 1, 0, 1, 0, 1, 1, 1, 0, 0, 0, 1, 0, 1, 0, 0, 1, 0, 1, 0, 1, 0, 1,
     1, 0, 0, 1, 1, 0, 0, 0, 0, 0, 0, 1, 0, 0, 1, 1, 1, 1, 0, 1, 0, 1, 0, 1,
     0, 0, 1, 1, 1, 0, 1, 0, 0, 1, 0, 0, 1, 1, 0, 0, 0, 0, 1, 0, 0, 0, 0, 1,
     0, 1, 1, 0, 0, 1, 0, 0, 1, 0, 0, 1, 1, 1, 0, 0, 1, 0, 0, 1, 1, 0, 0, 0,
     1, 0, 1, 1, 1, 1, 1, 1, 0, 0, 0, 1, 0, 1, 0, 1, 0, 0, 1, 1, 1, 0, 1, 0,
     1, 1, 0, 1, 1, 1, 0, 0, 0, 0, 0, 0, 1, 0, 1, 0, 1, 0, 1, 0, 0, 1, 0, 1,
     0, 0, 0, 1, 1, 0, 0, 1, 1, 0, 0, 0, 1, 0, 1, 0, 0, 0, 0, 1, 0, 1, 0, 0,
     1, 0, 1, 1, 1, 1, 0, 1, 0, 1, 1, 0, 0, 0, 0, 1, 0, 1, 0, 1, 0, 1, 0, 1,
     0, 0, 0, 1, 0, 1, 1, 1, 1, 0, 0, 0, 0, 1, 1, 1, 1, 1, 0, 1, 0, 0, 1, 0,
     1, 0, 1, 0, 0, 0, 0, 1, 1, 0, 1, 0, 0, 0, 1, 0, 1, 1, 0, 1, 1, 1, 0, 1]"


section \<open>\<open>key_stream_generation\<close> on a heap of list objects\<close>

text \<open>
  A Python list is an object and a variable holds a reference to it, so whether the call
  changes the caller's list is a question about the heap. The heap is the sequence of the
  list objects allocated so far, a reference is a position in it, and a new object goes to
  the end. \<open>keystream[i] = z\<close> updates an object in place; \<open>state = [t3] + ...\<close> builds a
  new object and makes the local name \<open>state\<close> refer to it.
\<close>

type_synonym ref = nat

type_synonym heap = "int list list"

definition alloc :: "heap \<Rightarrow> int list \<Rightarrow> ref \<times> heap" where
  "alloc h xs = (length h, h @ [xs])"

text \<open>
  The loop body (lines 60 to 71) in the order of the source: six reads of \<open>state\<close> up to
  index 287, the write into the keystream object, nine more reads up to index 286, the
  allocation of the new state. The result is the heap and either the error raised or the
  reference that \<open>state\<close> now holds.
\<close>

definition generation_heap_body :: "ref \<Rightarrow> nat \<Rightarrow> heap \<times> ref \<Rightarrow> heap \<times> (error + ref)" where
  "generation_heap_body keystream i = (\<lambda>(h, state).
     if length (h ! state) < 288 then (h, Inl IndexError)
     else
       let t1 = (h ! state) ! 65 XOR (h ! state) ! 92;
           t2 = (h ! state) ! 161 XOR (h ! state) ! 176;
           t3 = (h ! state) ! 242 XOR (h ! state) ! 287;
           z = (t1 XOR t2) XOR t3
       in case setitem (h ! keystream) i z of
            Inl e \<Rightarrow> (h, Inl e)
          | Inr ks \<Rightarrow>
              let h1 = h[keystream := ks]
              in if length (h1 ! state) < 287 then (h1, Inl IndexError)
                 else
                   let t1' = (t1 XOR ((h1 ! state) ! 90 AND (h1 ! state) ! 91)) XOR (h1 ! state) ! 170;
                       t2' = (t2 XOR ((h1 ! state) ! 174 AND (h1 ! state) ! 175)) XOR (h1 ! state) ! 263;
                       t3' = (t3 XOR ((h1 ! state) ! 285 AND (h1 ! state) ! 286)) XOR (h1 ! state) ! 68;
                       (state', h2) =
                          alloc h1 ([t3'] @ slice (h1 ! state) 0 92 @ [t1'] @
                                    slice (h1 ! state) 93 176 @ [t2'] @ slice (h1 ! state) 177 287)
                   in (h2, Inr state'))"

fun for_each_heap ::
  "nat list \<Rightarrow> (nat \<Rightarrow> heap \<times> ref \<Rightarrow> heap \<times> (error + ref)) \<Rightarrow> heap \<times> ref \<Rightarrow> heap \<times> (error + ref)"
where
  "for_each_heap [] body (h, state) = (h, Inr state)"
| "for_each_heap (i # is) body (h, state) =
     (case body i (h, state) of
        (h', Inl e) \<Rightarrow> (h', Inl e)
      | (h', Inr state') \<Rightarrow> for_each_heap is body (h', state'))"

text \<open>
  The call: \<open>state\<close> is the caller's reference; the result is the heap after the call and
  either the error or the reference returned, which is the one held by \<open>keystream\<close>.
\<close>

definition key_stream_generation_heap :: "heap \<Rightarrow> ref \<Rightarrow> int \<Rightarrow> heap \<times> (error + ref)" where
  "key_stream_generation_heap h state N =
     (let (keystream, h0) = alloc h (replicate (nat N) 0)
      in case for_each_heap (range_py N) (generation_heap_body keystream) (h0, state) of
           (h', Inl e) \<Rightarrow> (h', Inl e)
         | (h', Inr state') \<Rightarrow> (h', Inr keystream))"


section \<open>The circuit of the Grover attack (grover_trivium_attack.py)\<close>

text \<open>
  The functions \<open>trivium\<close> and \<open>inv_trivium\<close> append gates to the circuit \<open>qc\<close>. A
  function is modelled by the list of gates it appends, in order. The gates used are
  \<open>cx\<close>, \<open>ccx\<close> and \<open>swap\<close>; they permute the computational basis states, so the circuit
  is given its action on a basis state: one classical bit for each qubit of the registers
  \<open>s\<close> (288 qubits), \<open>t\<close> (3 qubits) and \<open>z\<close>.
\<close>

datatype qubit = S nat | T nat | Z nat

datatype gate = CX qubit qubit | CCX qubit qubit qubit | SWAP qubit qubit

type_synonym basis_state = "qubit \<Rightarrow> bool"

fun apply_gate :: "gate \<Rightarrow> basis_state \<Rightarrow> basis_state" where
  "apply_gate (CX c x) st = st(x := (st x \<noteq> st c))"
| "apply_gate (CCX c1 c2 x) st = st(x := (st x \<noteq> (st c1 \<and> st c2)))"
| "apply_gate (SWAP a b) st = st(a := st b, b := st a)"

definition run :: "gate list \<Rightarrow> basis_state \<Rightarrow> basis_state" where
  "run gates st = fold apply_gate gates st"

text \<open>A gate is built only on distinct qubits (the circuit library rejects duplicates).\<close>

fun distinct_qubits :: "gate \<Rightarrow> bool" where
  "distinct_qubits (CX c x) = (c \<noteq> x)"
| "distinct_qubits (CCX c1 c2 x) = (c1 \<noteq> c2 \<and> c1 \<noteq> x \<and> c2 \<noteq> x)"
| "distinct_qubits (SWAP a b) = (a \<noteq> b)"

subsection \<open>The forward circuit\<close>

definition state_update :: "nat \<Rightarrow> nat \<Rightarrow> nat \<Rightarrow> nat \<Rightarrow> nat \<Rightarrow> nat \<Rightarrow> gate list" where
  "state_update a b c d e t_index =
     [CX (S a) (S d), CCX (S b) (S c) (S d), CX (S e) (S d), SWAP (S d) (T t_index)]"

text \<open>
  \<open>state_shifting\<close>: \<open>j\<close> runs from \<open>a\<close> down to \<open>b\<close>. The recursion is on \<open>j\<close>; at
  \<open>j = 0\<close> the loop body runs if \<open>b = 0\<close> and the loop ends, since \<open>j\<close> becomes \<open>-1\<close>.
\<close>

fun state_shifting :: "nat \<Rightarrow> nat \<Rightarrow> qubit \<Rightarrow> gate list" where
  "state_shifting 0 b t = (if b = 0 then [SWAP (S b) t] else [])"
| "state_shifting (Suc j) b t =
     (if b \<le> Suc j
      then (if Suc j = b then SWAP (S b) t else SWAP (S (Suc j)) (S j)) # state_shifting j b t
      else [])"

definition update_t :: "nat \<Rightarrow> nat \<Rightarrow> nat \<Rightarrow> gate list" where
  "update_t a b t_index = [CX (S a) (S b), SWAP (S b) (T t_index)]"

text \<open>The body of the initialisation loop of \<open>trivium\<close> (lines 86 to 92).\<close>

definition initialisation_round :: "gate list" where
  "initialisation_round =
     state_update 65 90 91 92 170 0 @
     state_update 161 174 175 176 263 1 @
     state_update 242 285 286 287 68 2 @
     state_shifting 287 177 (T 1) @
     state_shifting 176 93 (T 0) @
     state_shifting 92 0 (T 2)"

text \<open>The body of the keystream loop of \<open>trivium\<close> (lines 96 to 113), for index \<open>i\<close>.\<close>

definition keystream_round :: "nat \<Rightarrow> gate list" where
  "keystream_round i =
     update_t 65 92 0 @
     update_t 161 176 1 @
     update_t 242 287 2 @
     [CX (T 0) (Z i), CX (T 1) (Z i), CX (T 2) (Z i)] @
     [CCX (S 90) (S 91) (T 0), CX (S 170) (T 0),
      CCX (S 174) (S 175) (T 1), CX (S 263) (T 1),
      CCX (S 285) (S 286) (T 2), CX (S 68) (T 2)] @
     state_shifting 287 177 (T 1) @
     state_shifting 176 93 (T 0) @
     state_shifting 92 0 (T 2)"

definition trivium :: "nat \<Rightarrow> nat \<Rightarrow> gate list" where
  "trivium rounds n =
     concat (map (\<lambda>_. initialisation_round) [0..<rounds]) @
     concat (map keystream_round [0..<n])"

subsection \<open>The inverse circuit\<close>

definition inv_state_update :: "nat \<Rightarrow> nat \<Rightarrow> nat \<Rightarrow> nat \<Rightarrow> nat \<Rightarrow> nat \<Rightarrow> gate list" where
  "inv_state_update a b c d e t_index =
     [SWAP (S d) (T t_index), CX (S e) (S d), CCX (S b) (S c) (S d), CX (S a) (S d)]"

definition state_shifting_left :: "nat \<Rightarrow> nat \<Rightarrow> qubit \<Rightarrow> gate list" where
  "state_shifting_left a b t =
     map (\<lambda>j. if j = b then SWAP (S b) t else SWAP (S j) (S (j - 1))) [b..<a + 1]"

definition inv_update_t :: "nat \<Rightarrow> nat \<Rightarrow> nat \<Rightarrow> gate list" where
  "inv_update_t a b t_index = [SWAP (S b) (T t_index), CX (S a) (S b)]"

text \<open>The body of the second loop of \<open>inv_trivium\<close> (lines 169 to 175).\<close>

definition inv_initialisation_round :: "gate list" where
  "inv_initialisation_round =
     state_shifting_left 92 0 (T 2) @
     state_shifting_left 176 93 (T 0) @
     state_shifting_left 287 177 (T 1) @
     inv_state_update 242 285 286 287 68 2 @
     inv_state_update 161 174 175 176 263 1 @
     inv_state_update 65 90 91 92 170 0"

text \<open>The body of the first loop of \<open>inv_trivium\<close> (lines 147 to 165); \<open>zi\<close> is \<open>n-1-i\<close>.\<close>

definition inv_keystream_round :: "nat \<Rightarrow> gate list" where
  "inv_keystream_round zi =
     state_shifting_left 92 0 (T 2) @
     state_shifting_left 176 93 (T 0) @
     state_shifting_left 287 177 (T 1) @
     [CX (S 68) (T 2), CCX (S 285) (S 286) (T 2),
      CX (S 263) (T 1), CCX (S 174) (S 175) (T 1),
      CX (S 170) (T 0), CCX (S 90) (S 91) (T 0)] @
     [CX (T 2) (Z zi), CX (T 1) (Z zi), CX (T 0) (Z zi)] @
     inv_update_t 242 287 2 @
     inv_update_t 161 176 1 @
     inv_update_t 65 92 0"

definition inv_trivium :: "nat \<Rightarrow> nat \<Rightarrow> gate list" where
  "inv_trivium rounds n =
     concat (map (\<lambda>i. inv_keystream_round (n - 1 - i)) [0..<n]) @
     concat (map (\<lambda>_. inv_initialisation_round) [0..<rounds])"

text \<open>
  The register \<open>s\<close> of a basis state read as the 288 bits of the classical cipher.
\<close>

definition s_bits :: "basis_state \<Rightarrow> int list" where
  "s_bits st = map (\<lambda>i. if st (S i) then 1 else 0) [0..<288]"

text \<open>
  The three feedback bits that the gates of \<open>state_update\<close> leave in the register \<open>t\<close>.
\<close>

definition tap1 :: "basis_state \<Rightarrow> bool" where
  "tap1 st = (((st (S 92) \<noteq> st (S 65)) \<noteq> (st (S 90) \<and> st (S 91))) \<noteq> st (S 170))"

definition tap2 :: "basis_state \<Rightarrow> bool" where
  "tap2 st = (((st (S 176) \<noteq> st (S 161)) \<noteq> (st (S 174) \<and> st (S 175))) \<noteq> st (S 263))"

definition tap3 :: "basis_state \<Rightarrow> bool" where
  "tap3 st = (((st (S 287) \<noteq> st (S 242)) \<noteq> (st (S 285) \<and> st (S 286))) \<noteq> st (S 68))"


section \<open>Properties of the classical cipher\<close>

subsection \<open>The clocks\<close>

lemma length_cells [simp]: "length (cells state a b) = Suc b - a"
  by (simp add: cells_def del: upt_Suc)

lemma nth_cells [simp]: "a + i \<le> b \<Longrightarrow> cells state a b ! i = state ! (a + i)"
  by (simp add: cells_def del: upt_Suc)

lemma cells_slice: "b < length xs \<Longrightarrow> cells xs a b = slice xs a (Suc b)"
  by (rule nth_equalityI) (auto simp: slice_def)

lemma length_forward_clock_spec [simp]: "length (forward_clock_spec state) = 288"
  by (simp add: forward_clock_spec_def)

lemma warmup_clock_288:
  "length state = 288 \<Longrightarrow> warmup_clock state = Inr (forward_clock_spec state)"
  by (simp add: warmup_clock_def forward_clock_spec_def cells_slice
      t1_spec_def t2_spec_def t3_spec_def Let_def ac_simps)

lemma warmup_clock_short: "length state < 288 \<Longrightarrow> warmup_clock state = Inl IndexError"
  by (simp add: warmup_clock_def)

lemma keystream_clock_288:
  "length state = 288 \<Longrightarrow>
     keystream_clock state = Inr (output_bit_spec state, forward_clock_spec state)"
  by (simp add: keystream_clock_def forward_clock_spec_def cells_slice
      t1_spec_def t2_spec_def t3_spec_def output_bit_spec_def Let_def ac_simps)

lemma forward_head: "forward_clock_spec state ! 0 = t3_spec state"
  by (simp add: forward_clock_spec_def)
lemma forward_A: "i < 92 \<Longrightarrow> forward_clock_spec state ! Suc i = state ! i"
  by (simp add: forward_clock_spec_def nth_append)
lemma forward_93: "forward_clock_spec state ! 93 = t1_spec state"
  by (simp add: forward_clock_spec_def nth_append)
lemma forward_B: "93 \<le> i \<Longrightarrow> i < 176 \<Longrightarrow> forward_clock_spec state ! Suc i = state ! i"
  by (auto simp add: forward_clock_spec_def nth_append nth_Cons')
lemma forward_177: "forward_clock_spec state ! 177 = t2_spec state"
  by (simp add: forward_clock_spec_def nth_append)
lemma forward_C: "177 \<le> i \<Longrightarrow> i < 287 \<Longrightarrow> forward_clock_spec state ! Suc i = state ! i"
  by (auto simp add: forward_clock_spec_def nth_append nth_Cons')


lemma for_each_append:
  "for_each (xs @ ys) body s =
     (case for_each xs body s of Inl e \<Rightarrow> Inl e | Inr s' \<Rightarrow> for_each ys body s')"
  by (induction xs arbitrary: s) (auto split: sum.splits)

lemma for_each_const:
  assumes step: "\<And>s. P s \<Longrightarrow> f s = Inr (g s) \<and> P (g s)"
  shows "P s \<Longrightarrow> for_each ns (\<lambda>i. f) s = Inr ((g ^^ length ns) s)"
proof (induction ns arbitrary: s)
  case Nil
  then show ?case by simp
next
  case (Cons i ns)
  from step [OF Cons.prems] have f: "f s = Inr (g s)" and P: "P (g s)" by simp_all
  show ?case
    using Cons.IH [OF P] by (simp add: f funpow_swap1)
qed

lemma load_loop_ok:
  assumes "n \<le> length src" and "off + n \<le> length st" and "k \<le> n"
  shows "for_each [k..<n]
           (\<lambda>i st. case getitem src i of Inl e \<Rightarrow> Inl e | Inr b \<Rightarrow> setitem st (off + i) b) st =
         Inr (take (off + k) st @ drop k (take n src) @ drop (off + n) st)"
  using assms
proof (induction "n - k" arbitrary: k st)
  case 0
  then show ?case by simp
next
  case (Suc d)
  then have k: "k < n" by simp
  let ?st = "st[off + k := src ! k]"
  have get: "getitem src k = Inr (src ! k)"
    using k Suc.prems by (simp add: getitem_def)
  have set: "setitem st (off + k) (src ! k) = Inr ?st"
    using k Suc.prems by (simp add: setitem_def)
  have IH: "for_each [Suc k..<n]
              (\<lambda>i st. case getitem src i of Inl e \<Rightarrow> Inl e | Inr b \<Rightarrow> setitem st (off + i) b) ?st =
            Inr (take (off + Suc k) ?st @ drop (Suc k) (take n src) @ drop (off + n) ?st)"
    using Suc.hyps(2) Suc.prems k by (intro Suc.hyps(1)) simp_all
  have a: "take (Suc (off + k)) ?st = take (off + k) st @ [src ! k]"
  proof -
    have "off + k < length ?st" using k Suc.prems by simp
    then have "take (Suc (off + k)) ?st = take (off + k) ?st @ [?st ! (off + k)]"
      by (rule take_Suc_conv_app_nth)
    also have "\<dots> = take (off + k) st @ [src ! k]"
      using k Suc.prems by simp
    finally show ?thesis .
  qed
  have b: "drop (off + n) ?st = drop (off + n) st"
    using k by simp
  have c: "drop k (take n src) = src ! k # drop (Suc k) (take n src)"
    using k Suc.prems by (simp flip: Cons_nth_drop_Suc)
  show ?case
    by (simp add: upt_conv_Cons [OF k] get set IH a b c del: upt_Suc)
qed

lemma load_loop_fail:
  assumes "length src < n" and "off + n \<le> length st"
  shows "for_each [0..<n]
           (\<lambda>i st. case getitem src i of Inl e \<Rightarrow> Inl e | Inr b \<Rightarrow> setitem st (off + i) b) st =
         Inl IndexError"
proof -
  have "[0..<n] = [0..<length src] @ [length src..<n]"
    using upt_add_eq_append [of 0 "length src" "n - length src"] assms(1) by simp
  then have split: "[0..<n] = [0..<length src] @ length src # [Suc (length src)..<n]"
    using assms(1) by (simp add: upt_conv_Cons del: upt_Suc)
  have ok: "for_each [0..<length src]
           (\<lambda>i st. case getitem src i of Inl e \<Rightarrow> Inl e | Inr b \<Rightarrow> setitem st (off + i) b) st =
         Inr (take (off + 0) st @ drop 0 (take (length src) src) @ drop (off + length src) st)"
    using assms by (intro load_loop_ok) simp_all
  show ?thesis
    unfolding split for_each_append ok by (simp add: getitem_def)
qed

lemma load_key_eq:
  "load_key key = (\<lambda>i st. case getitem key i of Inl e \<Rightarrow> Inl e | Inr b \<Rightarrow> setitem st (0 + i) b)"
  by (auto simp: load_key_def fun_eq_iff split: sum.splits)

lemma load_iv_eq:
  "load_iv iv = (\<lambda>i st. case getitem iv i of Inl e \<Rightarrow> Inl e | Inr b \<Rightarrow> setitem st (93 + i) b)"
  by (auto simp: load_iv_def fun_eq_iff split: sum.splits)

lemma set_ones_loop:
  assumes "length st = 288"
  shows "for_each [0..<3] set_ones st = Inr (take 285 st @ [1, 1, 1])"
proof -
  have idx: "[0..<3] = [0, 1, 2]" by code_simp
  have "st[285 := 1, 286 := 1, 287 := 1] = take 285 st @ [1, 1, 1]"
    using assms by (intro nth_equalityI) (auto simp: nth_append nth_list_update nth_Cons')
  then show ?thesis
    using assms by (simp add: idx set_ones_def setitem_def)
qed

lemma initial_state_ok:
  assumes "80 \<le> length key" and "80 \<le> length iv"
  shows "initial_state key iv =
           Inr (take 80 key @ replicate 13 0 @ take 80 iv @ replicate 112 0 @ [1, 1, 1])"
proof -
  have k: "for_each [0..<80] (load_key key) (replicate 288 0) =
             Inr (take 80 key @ replicate 208 0)"
    unfolding load_key_eq using assms by (subst load_loop_ok) simp_all
  have i: "for_each [0..<80] (load_iv iv) (take 80 key @ replicate 208 0) =
             Inr (take 80 key @ replicate 13 0 @ take 80 iv @ replicate 115 0)"
    unfolding load_iv_eq using assms by (subst load_loop_ok) simp_all
  have o: "for_each [0..<3] set_ones (take 80 key @ replicate 13 0 @ take 80 iv @ replicate 115 0) =
             Inr (take 80 key @ replicate 13 0 @ take 80 iv @ replicate 112 0 @ [1, 1, 1])"
    using assms by (subst set_ones_loop) simp_all
  show ?thesis
    by (simp add: initial_state_def k i o)
qed

lemma initial_state_short_key:
  "length key < 80 \<Longrightarrow> initial_state key iv = Inl IndexError"
  unfolding initial_state_def load_key_eq by (subst load_loop_fail) simp_all

lemma initial_state_short_iv:
  assumes "80 \<le> length key" and "length iv < 80"
  shows "initial_state key iv = Inl IndexError"
proof -
  have k: "for_each [0..<80] (load_key key) (replicate 288 0) =
             Inr (take 80 key @ replicate 208 0)"
    unfolding load_key_eq using assms by (subst load_loop_ok) simp_all
  have i: "for_each [0..<80] (load_iv iv) (take 80 key @ replicate 208 0) = Inl IndexError"
    unfolding load_iv_eq using assms by (subst load_loop_fail) simp_all
  show ?thesis
    by (simp add: initial_state_def k i)
qed

lemma warmup_loop:
  "length s = 288 \<Longrightarrow>
     for_each [0..<1152] (\<lambda>i. warmup_clock) s = Inr ((forward_clock_spec ^^ 1152) s)"
  using for_each_const [where P = "\<lambda>s. length s = 288" and f = warmup_clock
      and g = forward_clock_spec and s = s and ns = "[0..<1152]"]
  by (simp add: warmup_clock_288)


subsection \<open>Evaluating the clock on an explicit state\<close>

text \<open>
  On a list written out cell by cell the clock is one rewrite step; this is how the warm-up
  of a concrete key is evaluated.
\<close>

lemma forward_clock_spec_explicit:
  "forward_clock_spec
     [a0, a1, a2, a3, a4, a5, a6, a7, a8, a9, a10, a11,
      a12, a13, a14, a15, a16, a17, a18, a19, a20, a21, a22, a23,
      a24, a25, a26, a27, a28, a29, a30, a31, a32, a33, a34, a35,
      a36, a37, a38, a39, a40, a41, a42, a43, a44, a45, a46, a47,
      a48, a49, a50, a51, a52, a53, a54, a55, a56, a57, a58, a59,
      a60, a61, a62, a63, a64, a65, a66, a67, a68, a69, a70, a71,
      a72, a73, a74, a75, a76, a77, a78, a79, a80, a81, a82, a83,
      a84, a85, a86, a87, a88, a89, a90, a91, a92, a93, a94, a95,
      a96, a97, a98, a99, a100, a101, a102, a103, a104, a105, a106, a107,
      a108, a109, a110, a111, a112, a113, a114, a115, a116, a117, a118, a119,
      a120, a121, a122, a123, a124, a125, a126, a127, a128, a129, a130, a131,
      a132, a133, a134, a135, a136, a137, a138, a139, a140, a141, a142, a143,
      a144, a145, a146, a147, a148, a149, a150, a151, a152, a153, a154, a155,
      a156, a157, a158, a159, a160, a161, a162, a163, a164, a165, a166, a167,
      a168, a169, a170, a171, a172, a173, a174, a175, a176, a177, a178, a179,
      a180, a181, a182, a183, a184, a185, a186, a187, a188, a189, a190, a191,
      a192, a193, a194, a195, a196, a197, a198, a199, a200, a201, a202, a203,
      a204, a205, a206, a207, a208, a209, a210, a211, a212, a213, a214, a215,
      a216, a217, a218, a219, a220, a221, a222, a223, a224, a225, a226, a227,
      a228, a229, a230, a231, a232, a233, a234, a235, a236, a237, a238, a239,
      a240, a241, a242, a243, a244, a245, a246, a247, a248, a249, a250, a251,
      a252, a253, a254, a255, a256, a257, a258, a259, a260, a261, a262, a263,
      a264, a265, a266, a267, a268, a269, a270, a271, a272, a273, a274, a275,
      a276, a277, a278, a279, a280, a281, a282, a283, a284, a285, a286, a287] =
     [a242 XOR (a285 AND a286) XOR a287 XOR a68, a0, a1, a2, a3, a4, a5, a6, a7, a8, a9, a10,
      a11, a12, a13, a14, a15, a16, a17, a18, a19, a20, a21, a22,
      a23, a24, a25, a26, a27, a28, a29, a30, a31, a32, a33, a34,
      a35, a36, a37, a38, a39, a40, a41, a42, a43, a44, a45, a46,
      a47, a48, a49, a50, a51, a52, a53, a54, a55, a56, a57, a58,
      a59, a60, a61, a62, a63, a64, a65, a66, a67, a68, a69, a70,
      a71, a72, a73, a74, a75, a76, a77, a78, a79, a80, a81, a82,
      a83, a84, a85, a86, a87, a88, a89, a90, a91, a65 XOR (a90 AND a91) XOR a92 XOR a170, a93, a94,
      a95, a96, a97, a98, a99, a100, a101, a102, a103, a104, a105, a106,
      a107, a108, a109, a110, a111, a112, a113, a114, a115, a116, a117, a118,
      a119, a120, a121, a122, a123, a124, a125, a126, a127, a128, a129, a130,
      a131, a132, a133, a134, a135, a136, a137, a138, a139, a140, a141, a142,
      a143, a144, a145, a146, a147, a148, a149, a150, a151, a152, a153, a154,
      a155, a156, a157, a158, a159, a160, a161, a162, a163, a164, a165, a166,
      a167, a168, a169, a170, a171, a172, a173, a174, a175, a161 XOR (a174 AND a175) XOR a176 XOR a263, a177, a178,
      a179, a180, a181, a182, a183, a184, a185, a186, a187, a188, a189, a190,
      a191, a192, a193, a194, a195, a196, a197, a198, a199, a200, a201, a202,
      a203, a204, a205, a206, a207, a208, a209, a210, a211, a212, a213, a214,
      a215, a216, a217, a218, a219, a220, a221, a222, a223, a224, a225, a226,
      a227, a228, a229, a230, a231, a232, a233, a234, a235, a236, a237, a238,
      a239, a240, a241, a242, a243, a244, a245, a246, a247, a248, a249, a250,
      a251, a252, a253, a254, a255, a256, a257, a258, a259, a260, a261, a262,
      a263, a264, a265, a266, a267, a268, a269, a270, a271, a272, a273, a274,
      a275, a276, a277, a278, a279, a280, a281, a282, a283, a284, a285, a286]"
  by (simp add: forward_clock_spec_def cells_slice slice_def t1_spec_def t2_spec_def t3_spec_def)

lemma funpow_numeral_step: "(f ^^ numeral k) x = (f ^^ pred_numeral k) (f x)"
  by (simp add: numeral_eq_Suc funpow_swap1)

lemma replicate_numeral_step: "replicate (numeral k) x = x # replicate (pred_numeral k) x"
  by (simp add: numeral_eq_Suc)


subsection \<open>Setup and generation\<close>

lemma key_iv_setup_ok:
  assumes "80 \<le> length key" and "80 \<le> length iv"
  shows "key_iv_setup key iv =
           Inr ((forward_clock_spec ^^ 1152)
                  (take 80 key @ replicate 13 0 @ take 80 iv @ replicate 112 0 @ [1, 1, 1]))"
  using assms by (simp add: key_iv_setup_def initial_state_ok warmup_loop)

lemma key_iv_setup_short:
  assumes "length key < 80 \<or> length iv < 80"
  shows "key_iv_setup key iv = Inl IndexError"
proof (cases "length key < 80")
  case True
  then show ?thesis by (simp add: key_iv_setup_def initial_state_short_key)
next
  case False
  with assms have "80 \<le> length key" and "length iv < 80" by simp_all
  then show ?thesis by (simp add: key_iv_setup_def initial_state_short_iv)
qed

lemma length_funpow_forward:
  "length s = 288 \<Longrightarrow> length ((forward_clock_spec ^^ n) s) = 288"
  by (cases n) simp_all

lemma forward_clock_zero:
  assumes len: "length s = 288" and z: "forward_clock_spec s = replicate 288 0"
  shows "s = replicate 288 0"
proof -
  have nz: "forward_clock_spec s ! j = 0" if "j < 288" for j
    using that by (simp add: z)
  have A: "s ! i = 0" if "i < 92" for i
    using that forward_A [of i s] nz [of "Suc i"] by simp
  have B: "s ! i = 0" if "93 \<le> i" and "i < 176" for i
    using that forward_B [of i s] nz [of "Suc i"] by simp
  have C: "s ! i = 0" if "177 \<le> i" and "i < 287" for i
    using that forward_C [of i s] nz [of "Suc i"] by simp
  have "t1_spec s = 0" using forward_93 [of s] nz [of 93] by simp
  then have s92: "s ! 92 = 0" by (simp add: t1_spec_def A B)
  have "t2_spec s = 0" using forward_177 [of s] nz [of 177] by simp
  then have s176: "s ! 176 = 0" by (simp add: t2_spec_def B C)
  have "t3_spec s = 0" using forward_head [of s] nz [of 0] by simp
  then have s287: "s ! 287 = 0" by (simp add: t3_spec_def A C)
  have "s ! i = 0" if "i < 288" for i
  proof -
    have "i < 92 \<or> i = 92 \<or> (93 \<le> i \<and> i < 176) \<or> i = 176 \<or>
          (177 \<le> i \<and> i < 287) \<or> i = 287"
      using that by linarith
    then show ?thesis
      using A B C s92 s176 s287 by blast
  qed
  then show ?thesis
    using len by (intro nth_equalityI) simp_all
qed

lemma funpow_forward_zero:
  "length s = 288 \<Longrightarrow> (forward_clock_spec ^^ n) s = replicate 288 0 \<Longrightarrow> s = replicate 288 0"
proof (induction n arbitrary: s)
  case 0
  then show ?case by simp
next
  case (Suc n)
  from Suc.prems(2) have n: "(forward_clock_spec ^^ n) (forward_clock_spec s) = replicate 288 0"
    by (simp add: funpow_swap1)
  have "forward_clock_spec s = replicate 288 0"
  proof (rule Suc.IH)
    show "length (forward_clock_spec s) = 288" by simp
    show "(forward_clock_spec ^^ n) (forward_clock_spec s) = replicate 288 0" by (rule n)
  qed
  with Suc.prems(1) show ?case by (rule forward_clock_zero)
qed

lemma generation_body_288:
  assumes "length s = 288" and "k < length ks"
  shows "generation_body k (ks, s) = Inr (ks[k := output_bit_spec s], forward_clock_spec s)"
  using assms by (simp add: generation_body_def keystream_clock_288 setitem_def)

lemma generation_body_short:
  "length s < 288 \<Longrightarrow> generation_body k (ks, s) = Inl IndexError"
  by (simp add: generation_body_def keystream_clock_def)

lemma keystream_spec_Suc:
  "keystream_spec s (Suc n) = output_bit_spec s # keystream_spec (forward_clock_spec s) n"
  by (simp add: keystream_spec_def map_upt_Suc funpow_swap1 del: upt_Suc)

lemma keystream_spec_0: "keystream_spec s 0 = []"
  by (simp add: keystream_spec_def)

lemma length_keystream_spec [simp]: "length (keystream_spec s n) = n"
  by (simp add: keystream_spec_def)

lemma nth_keystream_spec:
  "i < n \<Longrightarrow> keystream_spec s n ! i = output_bit_spec ((forward_clock_spec ^^ i) s)"
  by (simp add: keystream_spec_def del: upt_Suc)

lemma generation_from:
  assumes "length ks = n" and "k \<le> n" and "length s = 288"
  shows "for_each [k..<n] generation_body (ks, s) =
           Inr (take k ks @ keystream_spec s (n - k), (forward_clock_spec ^^ (n - k)) s)"
  using assms
proof (induction "n - k" arbitrary: k ks s)
  case 0
  then show ?case by (simp add: keystream_spec_def)
next
  case (Suc d)
  then have k: "k < n" by simp
  let ?ks = "ks[k := output_bit_spec s]"
  have nk: "n - k = Suc (n - Suc k)" using k by simp
  have body: "generation_body k (ks, s) = Inr (?ks, forward_clock_spec s)"
    using k Suc.prems by (simp add: generation_body_288)
  have IH: "for_each [Suc k..<n] generation_body (?ks, forward_clock_spec s) =
              Inr (take (Suc k) ?ks @ keystream_spec (forward_clock_spec s) (n - Suc k),
                   (forward_clock_spec ^^ (n - Suc k)) (forward_clock_spec s))"
    using Suc.hyps(2) Suc.prems k by (intro Suc.hyps(1)) simp_all
  have "k < length ?ks" using k Suc.prems by simp
  then have "take (Suc k) ?ks = take k ?ks @ [?ks ! k]"
    by (rule take_Suc_conv_app_nth)
  also have "\<dots> = take k ks @ [output_bit_spec s]"
    using k Suc.prems by simp
  finally have a: "take (Suc k) ?ks = take k ks @ [output_bit_spec s]" .
  show ?case
    unfolding upt_conv_Cons [OF k] nk keystream_spec_Suc
    by (simp add: body IH a funpow_swap1 del: upt_Suc)
qed

lemma generation_loop_288:
  assumes "length s = 288" and "0 \<le> N"
  shows "generation_loop s N = Inr (keystream_spec s (nat N), (forward_clock_spec ^^ nat N) s)"
  using generation_from [of "replicate (nat N) 0" "nat N" 0 s] assms
  by (simp add: generation_loop_def range_py_def)

lemma generation_loop_nonpos: "N \<le> 0 \<Longrightarrow> generation_loop s N = Inr ([], s)"
  by (simp add: generation_loop_def range_py_def)

lemma key_stream_generation_288:
  assumes "length s = 288" and "0 \<le> N"
  shows "key_stream_generation s N = Inr (keystream_spec s (nat N))"
  using assms by (simp add: key_stream_generation_def generation_loop_288)

lemma keystream_spec_add:
  "keystream_spec s (a + b) = keystream_spec s a @ keystream_spec ((forward_clock_spec ^^ a) s) b"
proof (induction a arbitrary: s)
  case 0
  then show ?case by (simp add: keystream_spec_def)
next
  case (Suc a)
  show ?case
    using Suc.IH [of "forward_clock_spec s"]
    by (simp add: keystream_spec_Suc funpow_swap1 del: upt_Suc)
qed


subsection \<open>The script's own key and IV\<close>

lemma main_setup: "key_iv_setup main_key main_iv = Inr main_state"
proof -
  have "length main_key = 80" by (simp add: main_key_def)
  then have "key_iv_setup main_key main_iv =
      Inr ((forward_clock_spec ^^ 1152)
             (take 80 main_key @ replicate 13 0 @ take 80 main_key @ replicate 112 0 @ [1, 1, 1]))"
    by (simp add: key_iv_setup_ok main_iv_def)
  also have "\<dots> = Inr main_state"
    by (simp add: main_key_def main_state_def replicate_numeral_step funpow_numeral_step
        forward_clock_spec_explicit)
  finally show ?thesis .
qed

lemma length_main_state: "length main_state = 288"
  by (simp add: main_state_def)

lemma main_keystream_2: "keystream_spec main_state 2 = [0, 1]"
  by (simp add: numeral_2_eq_2 keystream_spec_Suc main_state_def forward_clock_spec_explicit
      output_bit_spec_def keystream_spec_def)

lemma main_keystream_1: "keystream_spec main_state (Suc 0) = [0]"
  by (simp add: keystream_spec_Suc main_state_def output_bit_spec_def keystream_spec_def)

lemma take_keystream_spec: "m \<le> n \<Longrightarrow> take m (keystream_spec s n) = keystream_spec s m"
  by (simp add: keystream_spec_def take_map del: upt_Suc)

lemma key_iv_setup_length:
  assumes "key_iv_setup key iv = Inr state"
  shows "length state = 288"
proof (cases "length key < 80 \<or> length iv < 80")
  case True
  then have "key_iv_setup key iv = Inl IndexError" by (rule key_iv_setup_short)
  with assms show ?thesis by simp
next
  case False
  then have "key_iv_setup key iv =
      Inr ((forward_clock_spec ^^ 1152)
             (take 80 key @ replicate 13 0 @ take 80 iv @ replicate 112 0 @ [1, 1, 1]))"
    by (intro key_iv_setup_ok) simp_all
  with assms have "state = (forward_clock_spec ^^ 1152)
      (take 80 key @ replicate 13 0 @ take 80 iv @ replicate 112 0 @ [1, 1, 1])"
    by simp
  moreover have "length (take 80 key @ replicate 13 0 @ take 80 iv @ replicate 112 0 @ [1, 1, 1 :: int]) = 288"
    using False by simp
  ultimately show ?thesis by (simp add: length_funpow_forward)
qed


section \<open>The claims about the classical cipher\<close>

text \<open>
  C1. One forward clock maps every 288-bit state to the state the specification describes:
  the taps \<open>t1\<close>, \<open>t2\<close>, \<open>t3\<close> are read from the old state only, and the new vector
  is \<open>t3\<close>, old cells 0..91, \<open>t1\<close>, old cells 93..175, \<open>t2\<close>, old cells 177..286.
  So each register gets a tap as its leading bit (positions 0, 93 and 177), every other
  cell takes the value of its left neighbour, and the old cells 92, 176 and 287 drop out.
\<close>

theorem warmup_clock_forward:
  assumes "length state = 288"
  shows "warmup_clock state = Inr (forward_clock_spec state) \<and>
         length (forward_clock_spec state) = 288 \<and>
         forward_clock_spec state ! 0 = t3_spec state \<and>
         (\<forall>i. i < 92 \<longrightarrow> forward_clock_spec state ! Suc i = state ! i) \<and>
         forward_clock_spec state ! 93 = t1_spec state \<and>
         (\<forall>i. 93 \<le> i \<and> i < 176 \<longrightarrow> forward_clock_spec state ! Suc i = state ! i) \<and>
         forward_clock_spec state ! 177 = t2_spec state \<and>
         (\<forall>i. 177 \<le> i \<and> i < 287 \<longrightarrow> forward_clock_spec state ! Suc i = state ! i)"
proof -
  have "warmup_clock state = Inr (forward_clock_spec state)"
    using assms by (rule warmup_clock_288)
  moreover have "forward_clock_spec state ! 0 = t3_spec state"
    by (rule forward_head)
  moreover have "forward_clock_spec state ! 93 = t1_spec state"
    by (rule forward_93)
  moreover have "forward_clock_spec state ! 177 = t2_spec state"
    by (rule forward_177)
  ultimately show ?thesis
    using forward_A [of _ state] forward_B [of _ state] forward_C [of _ state] by simp
qed

theorem warmup_clock_forward_witness:
  "length (replicate 285 0 @ [1, 1, 1 :: int]) = 288 \<and>
   warmup_clock (replicate 285 0 @ [1, 1, 1]) = Inr (replicate 286 0 @ [1, 1])"
proof -
  have len: "length (replicate 285 0 @ [1, 1, 1 :: int]) = 288" by simp
  have "forward_clock_spec (replicate 285 0 @ [1, 1, 1]) = replicate 286 0 @ [1, 1]"
    by (simp add: replicate_numeral_step forward_clock_spec_explicit)
  with warmup_clock_forward [OF len] show ?thesis by simp
qed

text \<open>
  C2. One keystream clock emits the bit
  \<open>state[65] XOR state[92] XOR state[161] XOR state[176] XOR state[242] XOR state[287]\<close> of the
  old state, and its state transition is that of the warm-up clock: dropping the output bit
  from the keystream clock gives the warm-up clock, on every list (on a list that is too short
  both raise \<open>IndexError\<close>).
\<close>

theorem keystream_clock_refines_warmup_clock:
  "(case keystream_clock state of Inl e \<Rightarrow> Inl e | Inr (z, state') \<Rightarrow> Inr state') =
     warmup_clock state \<and>
   (length state = 288 \<longrightarrow>
     (case keystream_clock state of Inl e \<Rightarrow> Inl e | Inr (z, state') \<Rightarrow> Inr z) =
       Inr (output_bit_spec state))"
  by (simp add: keystream_clock_def warmup_clock_def output_bit_spec_def Let_def ac_simps)

theorem keystream_clock_refines_warmup_clock_witness:
  "length (replicate 285 0 @ [1, 1, 1 :: int]) = 288 \<and>
   (case keystream_clock (replicate 285 0 @ [1, 1, 1]) of
      Inl e \<Rightarrow> Inl e | Inr (z, state') \<Rightarrow> Inr z) = (Inr 1 :: error + int)"
  using keystream_clock_refines_warmup_clock [of "replicate 285 0 @ [1, 1, 1]"]
  by (simp add: output_bit_spec_def nth_append)

text \<open>
  C3. For an 80-bit key and an 80-bit IV the state before the warm-up is the key in cells
  0..79, zeros in 80..92, the IV in 93..172, zeros in 173..284 and ones in 285..287; the
  result of \<open>key_iv_setup\<close> is that state after exactly 1152 forward clocks; and, the
  clock being invertible with the all-zero state as a fixed point, the result is never the
  all-zero state, whatever the key and the IV.
\<close>

theorem key_iv_setup_loads_and_warms_up:
  assumes "length key = 80" and "length iv = 80"
  shows "initial_state key iv = Inr (key @ replicate 13 0 @ iv @ replicate 112 0 @ [1, 1, 1]) \<and>
         key_iv_setup key iv =
           Inr ((forward_clock_spec ^^ 1152)
                  (key @ replicate 13 0 @ iv @ replicate 112 0 @ [1, 1, 1])) \<and>
         key_iv_setup key iv \<noteq> Inr (replicate 288 0)"
proof -
  let ?init = "key @ replicate 13 0 @ iv @ replicate 112 0 @ [1, 1, 1]"
  have init: "initial_state key iv = Inr ?init"
    using assms initial_state_ok [of key iv] by simp
  have warm: "key_iv_setup key iv = Inr ((forward_clock_spec ^^ 1152) ?init)"
    using assms key_iv_setup_ok [of key iv] by simp
  have len: "length ?init = 288"
    using assms by simp
  have one: "?init ! 285 = 1"
    using assms by (simp add: nth_append)
  have "?init \<noteq> replicate 288 0"
  proof
    assume "?init = replicate 288 0"
    then have "?init ! 285 = replicate 288 (0::int) ! 285" by (rule arg_cong)
    with one show False by simp
  qed
  then have "(forward_clock_spec ^^ 1152) ?init \<noteq> replicate 288 0"
    using funpow_forward_zero [OF len] by blast
  with init warm show ?thesis by simp
qed

theorem key_iv_setup_loads_and_warms_up_witness:
  "length (replicate 80 (0::int)) = 80 \<and>
   initial_state (replicate 80 0) (replicate 80 0) =
     Inr (replicate 80 0 @ replicate 13 0 @ replicate 80 0 @ replicate 112 0 @ [1, 1, 1]) \<and>
   key_iv_setup (replicate 80 0) (replicate 80 0) \<noteq> Inr (replicate 288 0)"
proof -
  have len: "length (replicate 80 (0::int)) = 80" by simp
  from key_iv_setup_loads_and_warms_up [OF len len] show ?thesis
    using len by blast
qed


text \<open>
  C9. On a 288-bit state and for \<open>N \<ge> 0\<close>, \<open>key_stream_generation\<close> returns exactly
  \<open>N\<close> bits, bit \<open>i\<close> being the output bit of the state reached after \<open>i\<close> clocks, and the
  loop leaves its local state \<open>N\<close> clocks further; for \<open>N = 0\<close> the result is empty and the
  state is the one it started from.
\<close>

theorem key_stream_generation_bits:
  assumes "length state = 288" and "0 \<le> N"
  shows "key_stream_generation state N = Inr (keystream_spec state (nat N)) \<and>
         length (keystream_spec state (nat N)) = nat N \<and>
         (\<forall>i. i < nat N \<longrightarrow>
            keystream_spec state (nat N) ! i = output_bit_spec ((forward_clock_spec ^^ i) state)) \<and>
         generation_loop state N =
           Inr (keystream_spec state (nat N), (forward_clock_spec ^^ nat N) state) \<and>
         key_stream_generation state 0 = Inr [] \<and>
         generation_loop state 0 = Inr ([], state)"
  using assms
  by (simp add: key_stream_generation_288 generation_loop_288 nth_keystream_spec
      keystream_spec_0)

theorem key_stream_generation_bits_witness:
  "length (replicate 285 0 @ [1, 1, 1 :: int]) = 288 \<and> (0::int) \<le> 1 \<and>
   key_stream_generation (replicate 285 0 @ [1, 1, 1]) 1 = Inr [1]"
  using key_stream_generation_bits [of "replicate 285 0 @ [1, 1, 1]" 1]
  by (simp add: keystream_spec_def output_bit_spec_def nth_append)

text \<open>
  C8. The code has no check of the requested length: for a negative \<open>N\<close> both
  \<open>[0] * N\<close> and \<open>range(N)\<close> are empty, so the call returns the empty keystream and raises
  nothing. What holds: a negative request returns the empty sequence, with no clock and the
  state as it was.
\<close>

theorem negative_request_is_empty:
  assumes "N < 0"
  shows "key_stream_generation state N = Inr [] \<and> generation_loop state N = Inr ([], state)"
  using assms by (simp add: key_stream_generation_def generation_loop_nonpos)

theorem negative_request_is_empty_witness:
  "(- 5 :: int) < 0 \<and> key_stream_generation main_state (- 5) = Inr [] \<and>
   generation_loop main_state (- 5) = Inr ([], main_state)"
  using negative_request_is_empty [of "- 5" main_state] by simp

text \<open>
  The claim C8 as stated fails on the request for \<open>-1\<close> bits, which returns normally.
\<close>

theorem negative_request_returns_empty:
  "key_stream_generation (replicate 288 0) (- 1) = Inr []"
  by (simp add: key_stream_generation_def generation_loop_nonpos)

text \<open>
  C7. The code has no length check either. A key or IV shorter than 80 bits makes the
  subscript \<open>key[i]\<close> or \<open>iv[i]\<close> raise \<open>IndexError\<close>, and no state is returned; a key or
  IV longer than 80 bits is accepted, and its first 80 bits are used.
\<close>

theorem key_iv_setup_lengths:
  "(length key < 80 \<or> length iv < 80 \<longrightarrow> key_iv_setup key iv = Inl IndexError) \<and>
   (80 \<le> length key \<and> 80 \<le> length iv \<longrightarrow>
      key_iv_setup key iv = key_iv_setup (take 80 key) (take 80 iv) \<and>
      \<not> isl (key_iv_setup key iv))"
proof (intro conjI impI)
  assume "length key < 80 \<or> length iv < 80"
  then show "key_iv_setup key iv = Inl IndexError" by (rule key_iv_setup_short)
next
  assume l: "80 \<le> length key \<and> 80 \<le> length iv"
  then show "key_iv_setup key iv = key_iv_setup (take 80 key) (take 80 iv)"
    by (simp add: key_iv_setup_ok)
  from l show "\<not> isl (key_iv_setup key iv)"
    by (simp add: key_iv_setup_ok)
qed

theorem key_iv_setup_lengths_witness:
  "key_iv_setup (replicate 79 0) (replicate 80 0) = Inl IndexError \<and>
   key_iv_setup (replicate 80 0) (replicate 79 0) = Inl IndexError \<and>
   \<not> isl (key_iv_setup (replicate 81 0) (replicate 80 0))"
proof -
  have k: "length (replicate 79 (0::int)) < 80 \<or> length (replicate 80 (0::int)) < 80"
    by simp
  have i: "length (replicate 80 (0::int)) < 80 \<or> length (replicate 79 (0::int)) < 80"
    by simp
  have l: "80 \<le> length (replicate 81 (0::int)) \<and> 80 \<le> length (replicate 80 (0::int))"
    by simp
  from key_iv_setup_lengths [of "replicate 79 0" "replicate 80 0"]
    key_iv_setup_lengths [of "replicate 80 0" "replicate 79 0"]
    key_iv_setup_lengths [of "replicate 81 0" "replicate 80 0"]
  show ?thesis
    using k i l by blast
qed

text \<open>
  The claim C7 as stated fails on an 81-bit IV, for which the setup returns a state.
\<close>

theorem long_iv_is_accepted:
  "\<not> isl (key_iv_setup (replicate 80 0) (replicate 81 0))"
  by (simp add: key_iv_setup_ok)

text \<open>
  C5. \<open>key_stream_generation\<close> neither changes the list it is given nor returns the state
  it has reached, so a second request on the same state starts the stream again. What
  holds: the last \<open>N2\<close> bits of a fresh request for \<open>N1 + N2\<close> bits are what a request for
  \<open>N2\<close> bits returns on the state that the first \<open>N1\<close> keystream clocks lead to; the
  second of two requests on the same state returns the first \<open>N2\<close> bits of that stream.
\<close>

theorem streaming_from_advanced_state:
  assumes "key_iv_setup key iv = Inr state" and "0 \<le> N1" and "0 \<le> N2"
  shows "\<exists>ks1 state1.
           generation_loop state N1 = Inr (ks1, state1) \<and>
           key_stream_generation state1 N2 = fresh_last key iv N1 N2 \<and>
           two_requests key iv N1 N2 =
             (case key_stream_generation state (N1 + N2) of
                Inl e \<Rightarrow> Inl e | Inr ks \<Rightarrow> Inr (take (nat N2) ks))"
proof -
  let ?state1 = "(forward_clock_spec ^^ nat N1) state"
  have len: "length state = 288"
    using assms(1) by (rule key_iv_setup_length)
  have len1: "length ?state1 = 288"
    using len by (rule length_funpow_forward)
  have sum: "nat (N1 + N2) = nat N1 + nat N2"
    using assms by (simp add: nat_add_distrib)
  have loop: "generation_loop state N1 = Inr (keystream_spec state (nat N1), ?state1)"
    using len assms(2) by (rule generation_loop_288)
  have all: "key_stream_generation state (N1 + N2) =
               Inr (keystream_spec state (nat N1) @ keystream_spec ?state1 (nat N2))"
    using key_stream_generation_288 [OF len, of "N1 + N2"] assms
    by (simp add: sum keystream_spec_add)
  have later: "key_stream_generation ?state1 N2 = Inr (keystream_spec ?state1 (nat N2))"
    using len1 assms(3) by (rule key_stream_generation_288)
  have fresh: "fresh_last key iv N1 N2 = Inr (keystream_spec ?state1 (nat N2))"
    by (simp add: fresh_last_def assms(1) all)
  have "take (nat N2) (keystream_spec state (nat N1 + nat N2)) = keystream_spec state (nat N2)"
    by (rule take_keystream_spec) simp
  then have again: "two_requests key iv N1 N2 =
      (case key_stream_generation state (N1 + N2) of
         Inl e \<Rightarrow> Inl e | Inr ks \<Rightarrow> Inr (take (nat N2) ks))"
    using key_stream_generation_288 [OF len assms(2)] key_stream_generation_288 [OF len assms(3)]
      key_stream_generation_288 [OF len, of "N1 + N2"] assms
    by (simp add: two_requests_def sum)
  from loop later fresh again show ?thesis by simp
qed

theorem streaming_from_advanced_state_witness:
  "key_iv_setup main_key main_iv = Inr main_state \<and> (0::int) \<le> 1 \<and>
   (\<exists>ks1 state1.
      generation_loop main_state 1 = Inr (ks1, state1) \<and>
      key_stream_generation state1 1 = fresh_last main_key main_iv 1 1 \<and>
      two_requests main_key main_iv 1 1 =
        (case key_stream_generation main_state (1 + 1) of
           Inl e \<Rightarrow> Inl e | Inr ks \<Rightarrow> Inr (take (nat 1) ks)))"
proof -
  have le: "(0::int) \<le> 1" by simp
  from streaming_from_advanced_state [OF main_setup le le] show ?thesis
    using main_setup le by blast
qed

text \<open>
  The claim C5 as stated fails for the script's key and IV with \<open>N1 = N2 = 1\<close>: asking the
  same state for one bit twice gives bit 0 twice, while the last bit of a fresh two-bit
  request is bit 1.
\<close>

theorem second_request_restarts:
  "two_requests main_key main_iv 1 1 \<noteq> fresh_last main_key main_iv 1 1"
proof -
  have a: "key_stream_generation main_state 1 = Inr [0]"
    using key_stream_generation_288 [OF length_main_state, of 1]
    by (simp add: main_keystream_1)
  have b: "key_stream_generation main_state 2 = Inr [0, 1]"
    using key_stream_generation_288 [OF length_main_state, of 2]
    by (simp add: main_keystream_2)
  show ?thesis
    by (simp add: two_requests_def fresh_last_def main_setup a b)
qed

section \<open>Properties of the circuit\<close>

subsection \<open>Running a circuit backwards\<close>

lemma run_Nil [simp]: "run [] st = st"
  by (simp add: run_def)

lemma run_Cons [simp]: "run (g # gates) st = run gates (apply_gate g st)"
  by (simp add: run_def)

lemma run_append [simp]: "run (xs @ ys) st = run ys (run xs st)"
  by (simp add: run_def)

lemma apply_gate_twice: "distinct_qubits g \<Longrightarrow> apply_gate g (apply_gate g st) = st"
  by (cases g) (auto simp: fun_eq_iff)

lemma run_rev:
  "\<forall>g \<in> set gates. distinct_qubits g \<Longrightarrow> run (rev gates) (run gates st) = st"
proof (induction gates arbitrary: st)
  case Nil
  then show ?case by simp
next
  case (Cons g gates)
  then have "run (rev gates) (run gates (apply_gate g st)) = apply_gate g st"
    by simp
  then show ?case
    using Cons.prems by (simp add: apply_gate_twice)
qed

lemma state_shifting_rev: "state_shifting a b t = rev (state_shifting_left a b t)"
  by (induction a) (auto simp: state_shifting_left_def)

lemma inv_state_update_rev: "inv_state_update a b c d e k = rev (state_update a b c d e k)"
  by (simp add: inv_state_update_def state_update_def)

lemma inv_update_t_rev: "inv_update_t a b k = rev (update_t a b k)"
  by (simp add: inv_update_t_def update_t_def)

lemma state_shifting_left_rev: "state_shifting_left a b t = rev (state_shifting a b t)"
  by (simp add: state_shifting_rev)

lemma inv_initialisation_round_rev: "inv_initialisation_round = rev initialisation_round"
  by (simp add: inv_initialisation_round_def initialisation_round_def
      state_shifting_left_rev inv_state_update_rev)

lemma inv_keystream_round_rev: "inv_keystream_round i = rev (keystream_round i)"
  by (simp add: inv_keystream_round_def keystream_round_def
      state_shifting_left_rev inv_update_t_rev)

lemma rev_upt_0: "rev [0..<n] = map (\<lambda>i. n - 1 - i) [0..<n]"
  by (rule nth_equalityI) (simp_all add: rev_nth)

lemma inv_trivium_rev: "inv_trivium rounds n = rev (trivium rounds n)"
proof -
  have a: "rev (concat (map (\<lambda>_. initialisation_round) [0..<rounds])) =
             concat (map (\<lambda>_. inv_initialisation_round) [0..<rounds])"
    by (simp add: rev_concat rev_map rev_upt_0 inv_initialisation_round_rev o_def
        del: upt_Suc)
  have b: "rev (concat (map keystream_round [0..<n])) =
             concat (map (\<lambda>i. inv_keystream_round (n - 1 - i)) [0..<n])"
    by (simp add: rev_concat rev_map rev_upt_0 inv_keystream_round_rev o_def
        del: upt_Suc)
  show ?thesis
    by (simp add: inv_trivium_def trivium_def a b)
qed

lemma distinct_state_shifting:
  "\<forall>g \<in> set (state_shifting j b (T k)). distinct_qubits g"
  by (induction j) auto

lemma distinct_initialisation_round: "\<forall>g \<in> set initialisation_round. distinct_qubits g"
  using distinct_state_shifting
  by (auto simp: initialisation_round_def state_update_def)

lemma distinct_keystream_round: "\<forall>g \<in> set (keystream_round i). distinct_qubits g"
  using distinct_state_shifting
  by (auto simp: keystream_round_def update_t_def)

lemma distinct_trivium: "\<forall>g \<in> set (trivium rounds n). distinct_qubits g"
  using distinct_initialisation_round distinct_keystream_round
  by (auto simp: trivium_def)


subsection \<open>The forward round on basis states\<close>

lemma state_shifting_empty: "j < b \<Longrightarrow> state_shifting j b t = []"
  by (cases j) simp_all

lemma run_state_shifting:
  "b \<le> j \<Longrightarrow>
     run (state_shifting j b (T k)) st =
       (\<lambda>q. case q of
              S i \<Rightarrow> if i = b then st (T k)
                     else if b < i \<and> i \<le> j then st (S (i - 1)) else st (S i)
            | T m \<Rightarrow> if m = k then st (S j) else st (T m)
            | Z m \<Rightarrow> st (Z m))"
proof (induction j arbitrary: st)
  case 0
  then show ?case
    by (auto simp: fun_eq_iff split: qubit.splits)
next
  case (Suc j)
  show ?case
  proof (cases "Suc j = b")
    case True
    then have "state_shifting j b (T k) = []"
      by (intro state_shifting_empty) simp
    with True show ?thesis
      by (auto simp: fun_eq_iff split: qubit.splits if_splits)
  next
    case False
    with Suc.prems have le: "b \<le> j" by simp
    show ?thesis
      using False Suc.prems
      by (auto simp: Suc.IH [OF le] fun_eq_iff split: qubit.splits)
  qed
qed

lemma run_state_update:
  "d \<noteq> a \<Longrightarrow> d \<noteq> b \<Longrightarrow> d \<noteq> c \<Longrightarrow> d \<noteq> e \<Longrightarrow>
     run (state_update a b c d e k) st =
       st(S d := st (T k),
          T k := (((st (S d) \<noteq> st (S a)) \<noteq> (st (S b) \<and> st (S c))) \<noteq> st (S e)))"
  by (auto simp: state_update_def fun_eq_iff)

lemma round_S0: "run initialisation_round st (S 0) = tap3 st"
  by (simp add: initialisation_round_def run_state_update run_state_shifting tap3_def)

lemma round_S93: "run initialisation_round st (S 93) = tap1 st"
  by (simp add: initialisation_round_def run_state_update run_state_shifting tap1_def)

lemma round_S177: "run initialisation_round st (S 177) = tap2 st"
  by (simp add: initialisation_round_def run_state_update run_state_shifting tap2_def)

lemma round_A: "i < 92 \<Longrightarrow> run initialisation_round st (S (Suc i)) = st (S i)"
  by (simp add: initialisation_round_def run_state_update run_state_shifting)

lemma round_B:
  "93 \<le> i \<Longrightarrow> i < 176 \<Longrightarrow> run initialisation_round st (S (Suc i)) = st (S i)"
  by (simp add: initialisation_round_def run_state_update run_state_shifting)

lemma round_C:
  "177 \<le> i \<Longrightarrow> i < 287 \<Longrightarrow> run initialisation_round st (S (Suc i)) = st (S i)"
  by (simp add: initialisation_round_def run_state_update run_state_shifting)


subsection \<open>The forward round is the classical forward clock\<close>

lemma length_s_bits [simp]: "length (s_bits st) = 288"
  by (simp add: s_bits_def)

lemma s_bits_nth: "i < 288 \<Longrightarrow> s_bits st ! i = (if st (S i) then 1 else 0)"
  by (simp add: s_bits_def del: upt_Suc)

lemma t1_spec_s_bits: "t1_spec (s_bits st) = (if tap1 st then 1 else 0)"
  by (simp add: t1_spec_def tap1_def s_bits_nth)

lemma t2_spec_s_bits: "t2_spec (s_bits st) = (if tap2 st then 1 else 0)"
  by (simp add: t2_spec_def tap2_def s_bits_nth)

lemma t3_spec_s_bits: "t3_spec (s_bits st) = (if tap3 st then 1 else 0)"
  by (simp add: t3_spec_def tap3_def s_bits_nth)

lemma s_bits_round: "s_bits (run initialisation_round st) = forward_clock_spec (s_bits st)"
proof (rule nth_equalityI)
  show "length (s_bits (run initialisation_round st)) = length (forward_clock_spec (s_bits st))"
    by simp
next
  fix i
  assume "i < length (s_bits (run initialisation_round st))"
  then have i: "i < 288" by simp
  show "s_bits (run initialisation_round st) ! i = forward_clock_spec (s_bits st) ! i"
  proof (cases i)
    case 0
    then show ?thesis
      by (simp add: s_bits_nth forward_head t3_spec_s_bits round_S0)
  next
    case (Suc j)
    with i have "j < 92 \<or> j = 92 \<or> (93 \<le> j \<and> j < 176) \<or> j = 176 \<or> (177 \<le> j \<and> j < 287)"
      by linarith
    then show ?thesis
    proof (elim disjE)
      assume "j < 92"
      then show ?thesis
        using Suc i by (simp add: s_bits_nth forward_A round_A)
    next
      assume "j = 92"
      then have "i = 93" using Suc by simp
      then show ?thesis
        by (simp add: s_bits_nth forward_93 t1_spec_s_bits round_S93)
    next
      assume "93 \<le> j \<and> j < 176"
      then show ?thesis
        using Suc i by (simp add: s_bits_nth forward_B round_B)
    next
      assume "j = 176"
      then have "i = 177" using Suc by simp
      then show ?thesis
        by (simp add: s_bits_nth forward_177 t2_spec_s_bits round_S177)
    next
      assume "177 \<le> j \<and> j < 287"
      then show ?thesis
        using Suc i by (simp add: s_bits_nth forward_C round_C)
    qed
  qed
qed

lemma run_rounds: "run (concat (map (\<lambda>_. gates) [0..<N])) st = (run gates ^^ N) st"
  by (induction N) simp_all

lemma s_bits_rounds:
  "s_bits ((run initialisation_round ^^ N) st) = (forward_clock_spec ^^ N) (s_bits st)"
  by (induction N) (simp_all add: s_bits_round)

lemma run_inverse_left:
  "\<forall>g \<in> set gates. distinct_qubits g \<Longrightarrow> run gates (run (rev gates) st) = st"
  using run_rev [of "rev gates" st] by simp

section \<open>The claim about the inverse clock\<close>

text \<open>
  C4. On basis states, the round that \<open>trivium\<close> repeats acts on the register \<open>s\<close> as the
  classical forward clock, and \<open>N\<close> rounds act as \<open>N\<close> clocks. The round that \<open>inv_trivium\<close>
  repeats undoes it: after a forward round, the inverse round gives back the state it
  started from, every bit of \<open>s\<close>, \<open>t\<close> and \<open>z\<close>; and \<open>inv_trivium\<close> after \<open>trivium\<close>, with
  the same number of rounds and of keystream bits, gives back the original state. The same
  holds in the other order, so the two are inverse bijections.
\<close>

theorem inv_trivium_inverts_trivium:
  "s_bits (run initialisation_round st) = forward_clock_spec (s_bits st) \<and>
   s_bits (run (trivium N 0) st) = (forward_clock_spec ^^ N) (s_bits st) \<and>
   run inv_initialisation_round (run initialisation_round st) = st \<and>
   run initialisation_round (run inv_initialisation_round st) = st \<and>
   run (inv_trivium N 0) (run (trivium N 0) st) = st \<and>
   run (inv_trivium N n) (run (trivium N n) st) = st \<and>
   run (trivium N n) (run (inv_trivium N n) st) = st"
proof -
  have "s_bits (run (trivium N 0) st) = (forward_clock_spec ^^ N) (s_bits st)"
    by (simp add: trivium_def run_rounds s_bits_rounds)
  moreover have "run inv_initialisation_round (run initialisation_round st) = st"
    unfolding inv_initialisation_round_rev
    using distinct_initialisation_round by (rule run_rev)
  moreover have "run initialisation_round (run inv_initialisation_round st) = st"
    unfolding inv_initialisation_round_rev
    using distinct_initialisation_round by (rule run_inverse_left)
  moreover have "run (inv_trivium N m) (run (trivium N m) st) = st" for m
    unfolding inv_trivium_rev
    using distinct_trivium by (rule run_rev)
  moreover have "run (trivium N n) (run (inv_trivium N n) st) = st"
    unfolding inv_trivium_rev
    using distinct_trivium by (rule run_inverse_left)
  ultimately show ?thesis
    by (simp add: s_bits_round)
qed


section \<open>The heap model\<close>

lemma generation_heap_body_pure:
  assumes "ks < length h" and "r < length h" and "r \<noteq> ks"
  shows "generation_heap_body ks i (h, r) =
           (case generation_body i (h ! ks, h ! r) of
              Inl e \<Rightarrow> (h, Inl e)
            | Inr (ks', s') \<Rightarrow> (h[ks := ks'] @ [s'], Inr (length h)))"
proof (cases "length (h ! r) < 288")
  case True
  then show ?thesis
    by (simp add: generation_heap_body_def generation_body_def keystream_clock_def)
next
  case False
  then show ?thesis
    using assms
    by (simp add: generation_heap_body_def generation_body_def keystream_clock_def
        alloc_def Let_def setitem_def)
qed

lemma for_each_heap_pure:
  assumes "ks < length h" and "r < length h" and "r \<noteq> ks"
  shows "case for_each_heap ns (generation_heap_body ks) (h, r) of
           (h', res) \<Rightarrow>
             length h \<le> length h' \<and>
             (\<forall>a. a < length h \<and> a \<noteq> ks \<longrightarrow> h' ! a = h ! a) \<and>
             (case res of
                Inl e \<Rightarrow> for_each ns generation_body (h ! ks, h ! r) = Inl e
              | Inr r' \<Rightarrow>
                  for_each ns generation_body (h ! ks, h ! r) = Inr (h' ! ks, h' ! r'))"
  using assms
proof (induction ns arbitrary: h r)
  case Nil
  then show ?case by simp
next
  case (Cons i ns)
  note body = generation_heap_body_pure [OF Cons.prems, of i]
  show ?case
  proof (cases "generation_body i (h ! ks, h ! r)")
    case (Inl e)
    then show ?thesis
      by (simp add: body)
  next
    case (Inr p)
    obtain ks' s' where p: "p = (ks', s')" by (cases p)
    let ?h = "h[ks := ks'] @ [s']"
    have step: "generation_heap_body ks i (h, r) = (?h, Inr (length h))"
      by (simp add: body Inr p)
    have IH: "case for_each_heap ns (generation_heap_body ks) (?h, length h) of
           (h', res) \<Rightarrow>
             length ?h \<le> length h' \<and>
             (\<forall>a. a < length ?h \<and> a \<noteq> ks \<longrightarrow> h' ! a = ?h ! a) \<and>
             (case res of
                Inl e \<Rightarrow> for_each ns generation_body (?h ! ks, ?h ! length h) = Inl e
              | Inr r' \<Rightarrow>
                  for_each ns generation_body (?h ! ks, ?h ! length h) = Inr (h' ! ks, h' ! r'))"
      using Cons.prems by (intro Cons.IH) simp_all
    have cells: "?h ! ks = ks'" "?h ! length h = s'"
      using Cons.prems by (simp_all add: nth_append)
    have old: "?h ! a = h ! a" if "a < length h" and "a \<noteq> ks" for a
      using that by (simp add: nth_append)
    show ?thesis
      using IH old
      by (auto simp: step Inr p cells split: prod.splits sum.splits)
  qed
qed

section \<open>The claim about the caller's list\<close>

text \<open>
  C10. Whatever the heap, the caller's reference and \<open>N\<close>, after the call every list
  object that existed before it, the caller's state among them, holds what it held before;
  this is so whether the call returns or raises. The reference returned is the new object
  allocated for \<open>keystream\<close>, it holds the keystream that the call computes from the
  contents of the caller's list, and the objects built for the later states are reachable
  from nothing that is returned.
\<close>

theorem key_stream_generation_keeps_callers_list:
  assumes "state < length h"
  shows "case key_stream_generation_heap h state N of
           (h', result) \<Rightarrow>
             length h \<le> length h' \<and>
             (\<forall>r. r < length h \<longrightarrow> h' ! r = h ! r) \<and>
             h' ! state = h ! state \<and>
             (case result of
                Inl e \<Rightarrow> key_stream_generation (h ! state) N = Inl e
              | Inr keystream \<Rightarrow>
                  keystream = length h \<and> keystream \<noteq> state \<and>
                  key_stream_generation (h ! state) N = Inr (h' ! keystream))"
proof -
  let ?h0 = "h @ [replicate (nat N) 0]"
  have loop: "case for_each_heap (range_py N) (generation_heap_body (length h)) (?h0, state) of
           (h', res) \<Rightarrow>
             length ?h0 \<le> length h' \<and>
             (\<forall>a. a < length ?h0 \<and> a \<noteq> length h \<longrightarrow> h' ! a = ?h0 ! a) \<and>
             (case res of
                Inl e \<Rightarrow> for_each (range_py N) generation_body (?h0 ! length h, ?h0 ! state) = Inl e
              | Inr r' \<Rightarrow>
                  for_each (range_py N) generation_body (?h0 ! length h, ?h0 ! state) =
                    Inr (h' ! length h, h' ! r'))"
    using assms by (intro for_each_heap_pure) simp_all
  have cells: "?h0 ! length h = replicate (nat N) 0" "?h0 ! state = h ! state"
    using assms by (simp_all add: nth_append)
  have old: "?h0 ! a = h ! a" if "a < length h" for a
    using that by (simp add: nth_append)
  show ?thesis
    using loop assms old
    by (auto simp: key_stream_generation_heap_def alloc_def cells key_stream_generation_def
        generation_loop_def split: prod.splits sum.splits)
qed

theorem key_stream_generation_keeps_callers_list_witness:
  "(0::nat) < length [replicate 285 0 @ [1, 1, 1 :: int]] \<and>
   fst (key_stream_generation_heap [replicate 285 0 @ [1, 1, 1]] 0 1) ! 0 =
     replicate 285 0 @ [1, 1, 1] \<and>
   snd (key_stream_generation_heap [replicate 285 0 @ [1, 1, 1]] 0 1) = Inr 1 \<and>
   fst (key_stream_generation_heap [replicate 285 0 @ [1, 1, 1]] 0 1) ! 1 = [1]"
proof -
  have len: "(0::nat) < length [replicate 285 0 @ [1, 1, 1 :: int]]" by simp
  have ks: "key_stream_generation (replicate 285 0 @ [1, 1, 1]) 1 = Inr [1]"
    using key_stream_generation_288 [of "replicate 285 0 @ [1, 1, 1]" 1]
    by (simp add: keystream_spec_def output_bit_spec_def nth_append)
  from key_stream_generation_keeps_callers_list [OF len, of 1] show ?thesis
    by (auto simp: ks split: prod.splits sum.splits)
qed

end
